theory Spec2Isabelle
  imports Main
begin

section \<open>Exceptions\<close>

text \<open>
  The exception classes the source names or can meet. \<open>HTTPError\<close> carries
  \<open>exception.response.status_code\<close>. The last constructors stand for the failures of
  Python itself and of the collaborators (an empty list indexed, a malformed move text, a
  stream read past its end, a dead engine, a payload that is no game).
\<close>

datatype exn =
    HTTPError int
  | RemoteDisconnected
  | ConnectionError
  | ProtocolError
  | IndexError
  | ValueError
  | TypeError
  | StopIteration
  | EngineError

section \<open>Admission controller: the loop of \<open>start\<close>\<close>

text \<open>
  \<open>model.Challenge\<close> is defined outside \<open>main.py\<close>. A challenge is kept with the
  three things \<open>start\<close> reads from it: its id, the value of \<open>score()\<close> and the value of
  \<open>is_supported(config)\<close>.
\<close>

record challenge =
  chal_id :: string
  chal_score :: int
  chal_supported :: bool

text \<open>
  A control event by its \<open>"type"\<close>. Every type the \<open>if\<close>/\<open>elif\<close> chain does not name
  (\<open>"ping"\<close> among them) is \<open>OtherEvent\<close>: no branch runs, only the drain loop.
\<close>

datatype event =
    LocalGameDone
  | Challenge challenge
  | GameStart string
  | OtherEvent string

text \<open>
  The two configuration keys \<open>start\<close> reads. \<open>config.get("sort_challenges_by")\<close> is
  \<open>None\<close> when the key is absent.
\<close>

record config =
  max_concurrent_games :: int
  sort_challenges_by :: "string option"

text \<open>What the loop sends out: decline and accept requests, and the sessions it launches.\<close>

datatype command = Decline string | Accept string | Launch string

text \<open>
  The command sink \<open>li\<close>: the outcome of the \<open>n\<close>-th request (counted from 0) is
  \<open>li n\<close>, \<open>None\<close> when the request returns and \<open>Some e\<close> when it raises \<open>e\<close>.
\<close>

type_synonym lichess = "nat \<Rightarrow> exn option"

record controller =
  busy_processes :: int
  queued_processes :: int
  challenge_queue :: "challenge list"
  requests :: nat
  sent :: "command list"

definition init_controller :: controller where
  "init_controller =
     \<lparr>busy_processes = 0, queued_processes = 0, challenge_queue = [], requests = 0, sent = []\<rparr>"

text \<open>One request to the command sink: it is recorded, counted, and its outcome returned.\<close>

definition request :: "lichess \<Rightarrow> command \<Rightarrow> controller \<Rightarrow> exn option \<times> controller" where
  "request li c s = (li (requests s), s\<lparr>requests := Suc (requests s), sent := sent s @ [c]\<rparr>)"

text \<open>
  The inner \<open>while\<close> of \<open>start\<close> (lines 83 to 94): pop the head, try to accept it, count it
  as queued on success, skip it on a 404, raise anything else.
\<close>

function drain :: "config \<Rightarrow> lichess \<Rightarrow> controller \<Rightarrow> exn + controller" where
  "drain cfg li s =
     (if queued_processes s + busy_processes s < max_concurrent_games cfg \<and> challenge_queue s \<noteq> []
      then
        (let chlng = hd (challenge_queue s);
             s1 = s\<lparr>challenge_queue := tl (challenge_queue s)\<rparr>;
             r = request li (Accept (chal_id chlng)) s1
         in case fst r of
              None \<Rightarrow> drain cfg li ((snd r)\<lparr>queued_processes := queued_processes (snd r) + 1\<rparr>)
            | Some (HTTPError code) \<Rightarrow>
                if code = 404 then drain cfg li (snd r) else Inl (HTTPError code)
            | Some e \<Rightarrow> Inl e)
      else Inr s)"
  by pat_completeness auto
termination
  by (relation "measure (\<lambda>(cfg, li, s). length (challenge_queue s))")
     (auto simp: request_def)

declare drain.simps [simp del]

text \<open>The \<open>if\<close>/\<open>elif\<close> chain on the event type (lines 57 to 81).\<close>

fun handle_event :: "config \<Rightarrow> lichess \<Rightarrow> controller \<Rightarrow> event \<Rightarrow> exn + controller" where
  "handle_event cfg li s LocalGameDone =
     Inr (s\<lparr>busy_processes := busy_processes s - 1\<rparr>)"
| "handle_event cfg li s (Challenge chlng) =
     (if chal_supported chlng
      then
        (let q = challenge_queue s @ [chlng]
         in Inr (s\<lparr>challenge_queue :=
                      (if sort_challenges_by cfg \<noteq> Some ''first''
                       then sort_key (\<lambda>c. - chal_score c) q else q)\<rparr>))
      else
        (let r = request li (Decline (chal_id chlng)) s
         in case fst r of
              None \<Rightarrow> Inr (snd r)
            | Some (HTTPError code) \<Rightarrow>
                if code \<noteq> 404 then Inl (HTTPError code) else Inr (snd r)
            | Some e \<Rightarrow> Inl e))"
| "handle_event cfg li s (GameStart game_id) =
     (let s1 = (if queued_processes s \<le> 0 then s
                else s\<lparr>queued_processes := queued_processes s - 1\<rparr>);
          s2 = s1\<lparr>sent := sent s1 @ [Launch game_id]\<rparr>
      in Inr (s2\<lparr>busy_processes := busy_processes s2 + 1\<rparr>))"
| "handle_event cfg li s (OtherEvent t) = Inr s"

text \<open>One turn of the outer \<open>while True\<close>: the event, then the drain loop.\<close>

definition start_step :: "config \<Rightarrow> lichess \<Rightarrow> controller \<Rightarrow> event \<Rightarrow> exn + controller" where
  "start_step cfg li s ev =
     (case handle_event cfg li s ev of Inl e \<Rightarrow> Inl e | Inr s' \<Rightarrow> drain cfg li s')"

text \<open>
  The loop on the events the control queue delivers, from a given state. The loop itself
  never ends; this is its state after a finite run of events, or the exception that left it.
\<close>

fun start_from :: "config \<Rightarrow> lichess \<Rightarrow> controller \<Rightarrow> event list \<Rightarrow> exn + controller" where
  "start_from cfg li s [] = Inr s"
| "start_from cfg li s (ev # evs) =
     (case start_step cfg li s ev of Inl e \<Rightarrow> Inl e | Inr s' \<Rightarrow> start_from cfg li s' evs)"

definition start :: "config \<Rightarrow> lichess \<Rightarrow> event list \<Rightarrow> exn + controller" where
  "start cfg li evs = start_from cfg li init_controller evs"

subsection \<open>Observations on a run of the loop\<close>

text \<open>
  The ids of the accept requests in a list of commands, in the order sent; the supported
  challenges among a list of events, in the order of arrival; a queue in descending order
  of score.
\<close>

definition accepts :: "command list \<Rightarrow> string list" where
  "accepts cs = concat (map (\<lambda>c. case c of Accept i \<Rightarrow> [i] | _ \<Rightarrow> []) cs)"

fun eligible :: "event list \<Rightarrow> challenge list" where
  "eligible [] = []"
| "eligible (Challenge c # evs) = (if chal_supported c then c # eligible evs else eligible evs)"
| "eligible (_ # evs) = eligible evs"

definition by_score :: "challenge list \<Rightarrow> bool" where
  "by_score q = sorted_wrt (\<lambda>a b. chal_score b \<le> chal_score a) q"

definition room :: "config \<Rightarrow> controller \<Rightarrow> bool" where
  "room cfg s = (queued_processes s + busy_processes s < max_concurrent_games cfg \<and> challenge_queue s \<noteq> [])"

definition popped :: "controller \<Rightarrow> controller" where
  "popped s = s\<lparr>challenge_queue := tl (challenge_queue s), requests := Suc (requests s),
                 sent := sent s @ [Accept (chal_id (hd (challenge_queue s)))]\<rparr>"

definition accepted :: "controller \<Rightarrow> controller" where
  "accepted s = (popped s)\<lparr>queued_processes := queued_processes s + 1\<rparr>"


text \<open>
  The counters are consistent, and an event arrives as the protocol expects it: a game
  starts only after an accepted challenge is waiting for it, a session ends only while one
  is running. \<open>as_expected\<close> follows the run and checks every event against the state it
  meets.
\<close>

definition counters_ok :: "config \<Rightarrow> controller \<Rightarrow> bool" where
  "counters_ok cfg s =
     (0 \<le> queued_processes s \<and> 0 \<le> busy_processes s \<and>
      queued_processes s + busy_processes s \<le> max_concurrent_games cfg)"

fun expected :: "controller \<Rightarrow> event \<Rightarrow> bool" where
  "expected s (GameStart game_id) = (0 < queued_processes s)"
| "expected s LocalGameDone = (0 < busy_processes s)"
| "expected s _ = True"

fun as_expected :: "config \<Rightarrow> lichess \<Rightarrow> controller \<Rightarrow> event list \<Rightarrow> bool" where
  "as_expected cfg li s [] = True"
| "as_expected cfg li s (ev # evs) =
     (expected s ev \<and>
      (case start_step cfg li s ev of Inl e \<Rightarrow> True | Inr s' \<Rightarrow> as_expected cfg li s' evs))"


subsection \<open>Example inputs\<close>

definition always_ok :: lichess where
  "always_ok n = None"

definition one_game :: config where
  "one_game = \<lparr>max_concurrent_games = 1, sort_challenges_by = None\<rparr>"

definition chal_a :: challenge where
  "chal_a = \<lparr>chal_id = ''A'', chal_score = 5, chal_supported = True\<rparr>"

definition chal_b :: challenge where
  "chal_b = \<lparr>chal_id = ''B'', chal_score = 10, chal_supported = True\<rparr>"

definition first_come :: config where
  "first_come = \<lparr>max_concurrent_games = 2, sort_challenges_by = Some ''first''\<rparr>"

definition chal_bad :: challenge where
  "chal_bad = \<lparr>chal_id = ''X'', chal_score = 7, chal_supported = False\<rparr>"

definition not_found :: lichess where
  "not_found n = Some (HTTPError 404)"

definition server_error :: lichess where
  "server_error n = Some (HTTPError 500)"

section \<open>Session driver: \<open>play_game\<close> and its helpers\<close>

subsection \<open>Data\<close>

text \<open>
  A \<open>chess.Move\<close> is kept as its UCI text. A \<open>chess.Board\<close> is kept as the way it was
  built and the moves pushed onto it since (\<open>board.push\<close> appends to the move stack and
  checks nothing), which is all the position depends on.
\<close>

type_synonym move = string

datatype board_kind = Chess960 string | FromFen string | Variant string

record board =
  built_as :: board_kind
  move_stack :: "move list"

text \<open>
  \<open>model.Game\<close> is defined outside \<open>main.py\<close>. A game is kept with the attributes
  this file reads; \<open>state_moves\<close> is \<open>game.state["moves"]\<close>, the text of the moves played,
  separated by spaces.
\<close>

record game =
  game_id :: string
  variant_name :: string
  initial_fen :: string
  is_white :: bool
  white_starts :: bool
  state_moves :: string

text \<open>The keys \<open>play_game\<close> reads from a \<open>gameState\<close> message.\<close>

record game_state =
  gs_moves :: string
  wtime :: int
  btime :: int
  winc :: int
  binc :: int

text \<open>
  A message of the per-game stream, decoded: the full game, a chat line, a game state, an
  empty line (\<open>Ping\<close>, as is a message of type \<open>"ping"\<close>), or a message of another type.
  The iterator \<open>updates\<close> is a list of chunks; \<open>Broken e\<close> is the place where reading the
  stream raises \<open>e\<close>, and the end of the list is the end of the stream.
\<close>

datatype update =
    GameFull game
  | ChatLine string
  | GameState game_state
  | Ping
  | OtherUpdate string

datatype chunk = Chunk update | Broken exn

text \<open>The keys read from \<open>config["engine"]\<close>, with the types the source compares them at.\<close>

record engine_cfg =
  polyglot :: bool
  polyglot_book :: string
  polyglot_max_depth :: int
  polyglot_random :: bool
  polyglot_min_weight :: int

text \<open>
  The collaborators of a session, all of them defined outside \<open>main.py\<close>, each given by
  what its calls return or raise: python-chess (building a board, \<open>Move.from_uci\<close>, the
  polyglot reader), the engine wrapper, the command sink \<open>li\<close> (the outcome of its
  \<open>n\<close>-th request), the chat collaborator, and \<open>game.should_abort_now()\<close>, which reads
  the clock: \<open>should_abort_now w n\<close> is its value while the \<open>n\<close>-th message of the stream
  is handled.
\<close>

record world =
  chess_new_board :: "board_kind \<Rightarrow> exn option"
  move_from_uci :: "string \<Rightarrow> exn + move"
  engine_factory :: "board \<Rightarrow> exn option"
  engine_pre_game :: "exn option"
  engine_first_search :: "board \<Rightarrow> int \<Rightarrow> exn + move"
  engine_search :: "board \<Rightarrow> int \<Rightarrow> int \<Rightarrow> int \<Rightarrow> int \<Rightarrow> exn + move"
  engine_quit :: "exn option"
  reader_open :: "string \<Rightarrow> exn option"
  reader_choice :: "board \<Rightarrow> exn + move"
  reader_find :: "board \<Rightarrow> int \<Rightarrow> exn + move"
  li_request :: "nat \<Rightarrow> exn option"
  conversation_react :: "string \<Rightarrow> exn option"
  should_abort_now :: "nat \<Rightarrow> bool"

text \<open>
  What a session does to the outside, in order: every call to the engine, to the lookup
  source, to the command sink and to the chat collaborator, the reset of the abort deadline,
  and the event put on the control queue.
\<close>

datatype effect =
    EngineCreated
  | PreGame
  | FirstSearch int
  | Search int int int int
  | BookLookup
  | MakeMove string move
  | Abort string
  | AbortIn int
  | React string
  | EngineQuit
  | PutLocalGameDone

text \<open>
  The local variables of \<open>play_game\<close> that change (\<open>game\<close>, \<open>board\<close>), the effects so far,
  the number of requests sent to the command sink and the number of stream messages handled.
  A step returns its outcome (\<open>Inl\<close> the exception raised) together with the session as it
  is at that moment, so that what was done before an exception is not lost.
\<close>

record session =
  sgame :: game
  sboard :: board
  effects :: "effect list"
  li_requests :: nat
  ticks :: nat

definition emit :: "effect \<Rightarrow> session \<Rightarrow> session" where
  "emit e s = s\<lparr>effects := effects s @ [e]\<rparr>"

definition li_call :: "world \<Rightarrow> effect \<Rightarrow> session \<Rightarrow> (exn + unit) \<times> session" where
  "li_call w e s =
     (case li_request w (li_requests s) of None \<Rightarrow> Inr () | Some x \<Rightarrow> Inl x,
      emit e (s\<lparr>li_requests := Suc (li_requests s)\<rparr>))"

subsection \<open>Strings\<close>

text \<open>
  \<open>str.split()\<close> without arguments: the words between runs of whitespace, none of them
  empty. \<open>str.lower()\<close> on the ASCII letters. Both are modelled for ASCII text, which is
  what the server sends for moves and variant names.
\<close>

definition is_space :: "char \<Rightarrow> bool" where
  "is_space c = ((of_char c :: nat) \<in> {9, 10, 11, 12, 13, 28, 29, 30, 31, 32})"

fun split_from :: "string \<Rightarrow> string \<Rightarrow> string list" where
  "split_from word [] = (if word = [] then [] else [word])"
| "split_from word (c # cs) =
     (if is_space c then (if word = [] then split_from [] cs else word # split_from [] cs)
      else split_from (word @ [c]) cs)"

definition py_split :: "string \<Rightarrow> string list" where
  "py_split s = split_from [] s"

definition lower :: "string \<Rightarrow> string" where
  "lower s = map (\<lambda>c. if 65 \<le> (of_char c :: nat) \<and> (of_char c :: nat) \<le> 90
                       then char_of ((of_char c :: nat) + 32) else c) s"

subsection \<open>Whose turn it is\<close>

definition is_white_to_move :: "game \<Rightarrow> string list \<Rightarrow> bool" where
  "is_white_to_move game moves = (length moves mod 2 = (if white_starts game then 0 else 1))"

definition is_engine_move :: "game \<Rightarrow> string list \<Rightarrow> bool" where
  "is_engine_move game moves =
     (let is_w = (is_white game \<and> is_white_to_move game moves);
          is_b = (is_white game = False \<and> is_white_to_move game moves = False)
      in is_w \<or> is_b)"

subsection \<open>The board\<close>

definition update_board :: "world \<Rightarrow> board \<Rightarrow> string \<Rightarrow> exn + board" where
  "update_board w board move =
     (case move_from_uci w move of
        Inl e \<Rightarrow> Inl e
      | Inr uci_move \<Rightarrow> Inr (board\<lparr>move_stack := move_stack board @ [uci_move]\<rparr>))"

fun push_all :: "world \<Rightarrow> board \<Rightarrow> string list \<Rightarrow> exn + board" where
  "push_all w board [] = Inr board"
| "push_all w board (move # moves) =
     (case update_board w board move of Inl e \<Rightarrow> Inl e | Inr b \<Rightarrow> push_all w b moves)"

definition setup_board :: "world \<Rightarrow> game \<Rightarrow> exn + board" where
  "setup_board w game =
     (let k = (if lower (variant_name game) = ''chess960'' then Chess960 (initial_fen game)
               else if variant_name game = ''From Position'' then FromFen (initial_fen game)
               else Variant (variant_name game))
      in case chess_new_board w k of
           Some e \<Rightarrow> Inl e
         | None \<Rightarrow> push_all w \<lparr>built_as = k, move_stack = []\<rparr> (py_split (state_moves game)))"

subsection \<open>The lookup source\<close>

text \<open>
  The body of the \<open>try\<close> in \<open>get_book_move\<close>, and \<open>get_book_move\<close> itself: the bare
  \<open>except\<close> turns every exception of the body into the \<open>return None\<close> after it.
\<close>

definition reader_move :: "world \<Rightarrow> board \<Rightarrow> engine_cfg \<Rightarrow> exn + move" where
  "reader_move w board ecfg =
     (case reader_open w (polyglot_book ecfg) of
        Some e \<Rightarrow> Inl e
      | None \<Rightarrow>
          if polyglot_random ecfg then reader_choice w board
          else reader_find w board (polyglot_min_weight ecfg))"

definition get_book_move ::
  "world \<Rightarrow> board \<Rightarrow> engine_cfg \<Rightarrow> session \<Rightarrow> (exn + move option) \<times> session" where
  "get_book_move w board ecfg s =
     (case reader_move w board ecfg of
        Inr book_move \<Rightarrow> Inr (Some book_move)
      | Inl e \<Rightarrow> Inr None,
      emit BookLookup s)"

subsection \<open>The first move\<close>

definition play_first_move :: "world \<Rightarrow> session \<Rightarrow> (exn + unit) \<times> session" where
  "play_first_move w s =
     (let moves = py_split (state_moves (sgame s))
      in if is_engine_move (sgame s) moves
         then
           (let s1 = emit (FirstSearch 2000) s
            in case engine_first_search w (sboard s) 2000 of
                 Inl e \<Rightarrow> (Inl e, s1)
               | Inr best_move \<Rightarrow> li_call w (MakeMove (game_id (sgame s)) best_move) s1)
         else (Inr (), s))"

definition play_first_book_move ::
  "world \<Rightarrow> engine_cfg \<Rightarrow> session \<Rightarrow> (exn + unit) \<times> session" where
  "play_first_book_move w ecfg s =
     (let moves = py_split (state_moves (sgame s))
      in if is_engine_move (sgame s) moves
         then
           (case get_book_move w (sboard s) ecfg s of
              (Inl e, s1) \<Rightarrow> (Inl e, s1)
            | (Inr (Some book_move), s1) \<Rightarrow>
                li_call w (MakeMove (game_id (sgame s)) book_move) s1
            | (Inr None, s1) \<Rightarrow> play_first_move w s1)
         else (Inr (), s))"

subsection \<open>The loop over the stream\<close>

text \<open>Lines 130 to 134: the lookup source within its depth, the engine otherwise.\<close>

definition choose_move ::
  "world \<Rightarrow> engine_cfg \<Rightarrow> game_state \<Rightarrow> string list \<Rightarrow> session \<Rightarrow> (exn + move) \<times> session" where
  "choose_move w ecfg upd moves s =
     (case (if polyglot ecfg \<and> int (length moves) \<le> polyglot_max_depth ecfg * 2 - 1
            then get_book_move w (sboard s) ecfg s
            else (Inr None, s)) of
        (Inl e, s1) \<Rightarrow> (Inl e, s1)
      | (Inr (Some best_move), s1) \<Rightarrow> (Inr best_move, s1)
      | (Inr None, s1) \<Rightarrow>
          (engine_search w (sboard s1) (wtime upd) (btime upd) (winc upd) (binc upd),
           emit (Search (wtime upd) (btime upd) (winc upd) (binc upd)) s1))"

text \<open>Lines 125 to 136: a \<open>gameState\<close> message. \<open>moves[-1]\<close> raises on an empty list.\<close>

definition on_game_state ::
  "world \<Rightarrow> engine_cfg \<Rightarrow> session \<Rightarrow> game_state \<Rightarrow> (exn + unit) \<times> session" where
  "on_game_state w ecfg s upd =
     (let s1 = s\<lparr>sgame := (sgame s)\<lparr>state_moves := gs_moves upd\<rparr>\<rparr>;
          moves = py_split (gs_moves upd)
      in if moves = [] then (Inl IndexError, s1)
         else
           (case update_board w (sboard s1) (last moves) of
              Inl e \<Rightarrow> (Inl e, s1)
            | Inr b \<Rightarrow>
                (let s2 = s1\<lparr>sboard := b\<rparr>
                 in if is_engine_move (sgame s2) moves
                    then
                      (case choose_move w ecfg upd moves s2 of
                         (Inl e, s3) \<Rightarrow> (Inl e, s3)
                       | (Inr best_move, s3) \<Rightarrow>
                           (case li_call w (MakeMove (game_id (sgame s3)) best_move) s3 of
                              (Inl e, s4) \<Rightarrow> (Inl e, s4)
                            | (Inr u, s4) \<Rightarrow> (Inr (), emit (AbortIn 20) s4)))
                    else (Inr (), s2))))"

text \<open>Lines 137 to 140: a ping. \<open>len(game.state["moves"])\<close> is the length of a string.\<close>

definition on_ping :: "world \<Rightarrow> session \<Rightarrow> (exn + unit) \<times> session" where
  "on_ping w s =
     (if should_abort_now w (ticks s) \<and> length (state_moves (sgame s)) < 6
      then li_call w (Abort (game_id (sgame s))) s
      else (Inr (), s))"

text \<open>The body of the \<open>for\<close> loop: the branch for the type of the message, if there is one.\<close>

fun on_update :: "world \<Rightarrow> engine_cfg \<Rightarrow> session \<Rightarrow> update \<Rightarrow> (exn + unit) \<times> session" where
  "on_update w ecfg s (ChatLine line) =
     (case conversation_react w line of None \<Rightarrow> Inr () | Some e \<Rightarrow> Inl e, emit (React line) s)"
| "on_update w ecfg s (GameState upd) = on_game_state w ecfg s upd"
| "on_update w ecfg s Ping = on_ping w s"
| "on_update w ecfg s (GameFull g) = (Inr (), s)"
| "on_update w ecfg s (OtherUpdate t) = (Inr (), s)"

fun play_game_loop ::
  "world \<Rightarrow> engine_cfg \<Rightarrow> session \<Rightarrow> chunk list \<Rightarrow> (exn + unit) \<times> session" where
  "play_game_loop w ecfg s [] = (Inr (), s)"
| "play_game_loop w ecfg s (Broken e # updates) = (Inl e, s)"
| "play_game_loop w ecfg s (Chunk u # updates) =
     (case on_update w ecfg s u of
        (Inl e, s1) \<Rightarrow> (Inl e, s1)
      | (Inr x, s1) \<Rightarrow> play_game_loop w ecfg (s1\<lparr>ticks := Suc (ticks s1)\<rparr>) updates)"

subsection \<open>The session\<close>

text \<open>The exceptions the \<open>except\<close> clause of \<open>play_game\<close> names.\<close>

fun caught :: "exn \<Rightarrow> bool" where
  "caught RemoteDisconnected = True"
| "caught ConnectionError = True"
| "caught ProtocolError = True"
| "caught (HTTPError code) = True"
| "caught e = False"

text \<open>
  Lines 144 to 149, the \<open>finally\<close> block, entered with the exception still to be raised
  after it (if any). The control queue is created without a bound, so \<open>put_nowait\<close> does
  not raise.
\<close>

definition play_game_finally :: "world \<Rightarrow> exn option \<Rightarrow> session \<Rightarrow> exn option \<times> effect list" where
  "play_game_finally w pending s =
     (let s1 = emit EngineQuit s
      in case engine_quit w of
           Some e \<Rightarrow> (Some e, effects s1)
         | None \<Rightarrow> (pending, effects (emit PutLocalGameDone s1)))"

text \<open>
  \<open>play_game\<close> on the stream of a game: the exception that leaves it, if any, and what it
  has done. The first message is the full game (\<open>model.Game\<close> is assumed to raise on any
  other payload, and decoding an empty line raises). The \<open>try\<close> statement starts only after
  the first move.
\<close>

definition play_game :: "world \<Rightarrow> engine_cfg \<Rightarrow> chunk list \<Rightarrow> exn option \<times> effect list" where
  "play_game w ecfg stream =
     (case stream of
        [] \<Rightarrow> (Some StopIteration, [])
      | Broken e # updates \<Rightarrow> (Some e, [])
      | Chunk Ping # updates \<Rightarrow> (Some ValueError, [])
      | Chunk (ChatLine line) # updates \<Rightarrow> (Some TypeError, [])
      | Chunk (GameState upd) # updates \<Rightarrow> (Some TypeError, [])
      | Chunk (OtherUpdate t) # updates \<Rightarrow> (Some TypeError, [])
      | Chunk (GameFull game) # updates \<Rightarrow>
          (case setup_board w game of
             Inl e \<Rightarrow> (Some e, [])
           | Inr board \<Rightarrow>
               (case engine_factory w board of
                  Some e \<Rightarrow> (Some e, [])
                | None \<Rightarrow>
                    (let s0 = \<lparr>sgame = game, sboard = board, effects = [EngineCreated],
                               li_requests = 0, ticks = 0\<rparr>;
                         s1 = emit PreGame s0
                     in case engine_pre_game w of
                          Some e \<Rightarrow> (Some e, effects s1)
                        | None \<Rightarrow>
                            (case (if polyglot ecfg then play_first_book_move w ecfg s1
                                   else play_first_move w s1) of
                               (Inl e, s2) \<Rightarrow> (Some e, effects s2)
                             | (Inr x, s2) \<Rightarrow>
                                 (case play_game_loop w ecfg s2 updates of
                                    (Inl e, s3) \<Rightarrow>
                                      play_game_finally w (if caught e then None else Some e) s3
                                  | (Inr y, s3) \<Rightarrow> play_game_finally w None s3))))))"

subsection \<open>Example inputs\<close>

definition demo_world :: world where
  "demo_world =
     \<lparr>chess_new_board = (\<lambda>k. None),
      move_from_uci = (\<lambda>u. if length u = 4 \<or> length u = 5 then Inr u else Inl ValueError),
      engine_factory = (\<lambda>b. None),
      engine_pre_game = None,
      engine_first_search = (\<lambda>b t. Inr ''e2e4''),
      engine_search = (\<lambda>b wt bt wi bi. Inr ''g1f3''),
      engine_quit = None,
      reader_open = (\<lambda>p. None),
      reader_choice = (\<lambda>b. Inr ''d2d4''),
      reader_find = (\<lambda>b m. Inr ''d2d4''),
      li_request = (\<lambda>n. None),
      conversation_react = (\<lambda>l. None),
      should_abort_now = (\<lambda>n. True)\<rparr>"

definition demo_game :: game where
  "demo_game =
     \<lparr>game_id = ''abcd1234'', variant_name = ''Standard'', initial_fen = ''startpos'',
      is_white = True, white_starts = True, state_moves = ''''\<rparr>"

definition engine_only :: engine_cfg where
  "engine_only =
     \<lparr>polyglot = False, polyglot_book = ''book.bin'', polyglot_max_depth = 8,
      polyglot_random = False, polyglot_min_weight = 1\<rparr>"

definition with_book :: engine_cfg where
  "with_book = engine_only\<lparr>polyglot := True\<rparr>"

definition demo_session :: session where
  "demo_session =
     \<lparr>sgame = demo_game, sboard = \<lparr>built_as = Variant ''Standard'', move_stack = []\<rparr>,
      effects = [], li_requests = 0, ticks = 0\<rparr>"

definition black_from_position :: game where
  "black_from_position = demo_game\<lparr>variant_name := ''From Position'', white_starts := False\<rparr>"

definition two_plies :: session where
  "two_plies = demo_session\<lparr>sgame := demo_game\<lparr>state_moves := ''e2e4 e7e5''\<rparr>\<rparr>"

definition shallow_book :: engine_cfg where
  "shallow_book = with_book\<lparr>polyglot_max_depth := 1\<rparr>"

definition as_black :: session where
  "as_black = demo_session\<lparr>sgame := demo_game\<lparr>is_white := False\<rparr>\<rparr>"

definition after_e4 :: game_state where
  "after_e4 = \<lparr>gs_moves = ''e2e4'', wtime = 60000, btime = 60000, winc = 0, binc = 0\<rparr>"

definition after_e4_e5 :: game_state where
  "after_e4_e5 = \<lparr>gs_moves = ''e2e4 e7e5'', wtime = 60000, btime = 59000, winc = 0, binc = 0\<rparr>"

definition no_book :: world where
  "no_book = demo_world\<lparr>reader_open := (\<lambda>p. Some ValueError)\<rparr>"

definition refusing :: world where
  "refusing = demo_world\<lparr>li_request := (\<lambda>n. Some (HTTPError 400))\<rparr>"

definition patient :: world where
  "patient = demo_world\<lparr>should_abort_now := (\<lambda>n. False)\<rparr>"

definition after_e4_again :: session where
  "after_e4_again = as_black\<lparr>sboard := (sboard as_black)\<lparr>move_stack := [''e2e4'']\<rparr>\<rparr>"

subsection \<open>Observations on a session\<close>

text \<open>The text of a list of moves as the server sends it: one space between two moves.\<close>

definition uci_text :: "string list \<Rightarrow> string" where
  "uci_text ms = (case ms of [] \<Rightarrow> [] | m # rest \<Rightarrow> m @ concat (map (\<lambda>x. CHR '' '' # x) rest))"

text \<open>
  The board holds exactly the moves of a list: every move of the list parses, and the move
  stack is the list of the parsed moves.
\<close>

definition replays :: "world \<Rightarrow> board \<Rightarrow> string list \<Rightarrow> bool" where
  "replays w b moves = (map (move_from_uci w) moves = map Inr (move_stack b))"

section \<open>Properties of the admission controller\<close>

subsection \<open>The drain loop\<close>

lemma drain_stop: "\<not> room cfg s \<Longrightarrow> drain cfg li s = Inr s"
  by (subst drain.simps) (auto simp: room_def)

lemma drain_accept: "room cfg s \<Longrightarrow> li (requests s) = None \<Longrightarrow> drain cfg li s = drain cfg li (accepted s)"
  by (subst drain.simps) (simp add: room_def accepted_def popped_def request_def Let_def)

lemma drain_skip:
  "room cfg s \<Longrightarrow> li (requests s) = Some (HTTPError 404) \<Longrightarrow> drain cfg li s = drain cfg li (popped s)"
  by (subst drain.simps) (simp add: room_def popped_def request_def Let_def)

lemma drain_fatal:
  "room cfg s \<Longrightarrow> li (requests s) = Some e \<Longrightarrow> e \<noteq> HTTPError 404 \<Longrightarrow> drain cfg li s = Inl e"
  by (subst drain.simps) (auto simp: room_def request_def Let_def split: exn.splits)

lemma drain_returns_induct [consumes 1, case_names stop accept skip]:
  assumes "drain cfg li s = Inr s'"
    and "\<And>s. \<not> room cfg s \<Longrightarrow> P s s"
    and "\<And>s t. room cfg s \<Longrightarrow> li (requests s) = None \<Longrightarrow> P (accepted s) t \<Longrightarrow> P s t"
    and "\<And>s t. room cfg s \<Longrightarrow> li (requests s) = Some (HTTPError 404) \<Longrightarrow> P (popped s) t \<Longrightarrow> P s t"
  shows "P s s'"
  using assms(1)
proof (induction "length (challenge_queue s)" arbitrary: s rule: less_induct)
  case less
  show ?case
  proof (cases "room cfg s")
    case False
    with less.prems assms(2) show ?thesis by (simp add: drain_stop)
  next
    case True
    then have shorter: "length (challenge_queue (popped s)) < length (challenge_queue s)"
      "length (challenge_queue (accepted s)) < length (challenge_queue s)"
      by (simp_all add: room_def popped_def accepted_def)
    show ?thesis
    proof (cases "li (requests s)")
      case None
      with True less.prems have "drain cfg li (accepted s) = Inr s'" by (simp add: drain_accept)
      with less.hyps shorter(2) have "P (accepted s) s'" by blast
      with True None assms(3) show ?thesis by blast
    next
      case (Some e)
      show ?thesis
      proof (cases "e = HTTPError 404")
        case True
        with \<open>room cfg s\<close> Some less.prems have "drain cfg li (popped s) = Inr s'"
          by (simp add: drain_skip)
        with less.hyps shorter(1) have "P (popped s) s'" by blast
        with \<open>room cfg s\<close> Some True assms(4) show ?thesis by blast
      next
        case False
        with \<open>room cfg s\<close> Some less.prems show ?thesis by (simp add: drain_fatal)
      qed
    qed
  qed
qed

lemma drain_counters:
  assumes "drain cfg li s = Inr s'"
  shows "busy_processes s' = busy_processes s \<and> queued_processes s \<le> queued_processes s' \<and>
     (queued_processes s + busy_processes s \<le> max_concurrent_games cfg \<longrightarrow>
      queued_processes s' + busy_processes s' \<le> max_concurrent_games cfg)"
  using assms
  by (induction rule: drain_returns_induct) (auto simp: room_def accepted_def popped_def)

lemma drain_exit:
  assumes "drain cfg li s = Inr s'"
  shows "\<not> room cfg s'"
  using assms by (induction rule: drain_returns_induct) auto

lemma drain_pops:
  assumes "drain cfg li s = Inr s'"
  shows "\<exists>n. challenge_queue s' = drop n (challenge_queue s) \<and>
             sent s' = sent s @ map (\<lambda>c. Accept (chal_id c)) (take n (challenge_queue s))"
  using assms
proof (induction rule: drain_returns_induct)
  case (stop s)
  have "challenge_queue s = drop 0 (challenge_queue s) \<and>
        sent s = sent s @ map (\<lambda>c. Accept (chal_id c)) (take 0 (challenge_queue s))" by simp
  then show ?case by blast
next
  case (accept s t)
  then obtain n where n: "challenge_queue t = drop n (challenge_queue (accepted s))"
    "sent t = sent (accepted s) @ map (\<lambda>c. Accept (chal_id c)) (take n (challenge_queue (accepted s)))"
    by blast
  from accept(1) obtain c q where q: "challenge_queue s = c # q"
    by (cases "challenge_queue s") (auto simp: room_def)
  with n have "challenge_queue t = drop (Suc n) (challenge_queue s) \<and>
        sent t = sent s @ map (\<lambda>c. Accept (chal_id c)) (take (Suc n) (challenge_queue s))"
    by (simp add: accepted_def popped_def)
  then show ?case by blast
next
  case (skip s t)
  then obtain n where n: "challenge_queue t = drop n (challenge_queue (popped s))"
    "sent t = sent (popped s) @ map (\<lambda>c. Accept (chal_id c)) (take n (challenge_queue (popped s)))"
    by blast
  from skip(1) obtain c q where q: "challenge_queue s = c # q"
    by (cases "challenge_queue s") (auto simp: room_def)
  with n have "challenge_queue t = drop (Suc n) (challenge_queue s) \<and>
        sent t = sent s @ map (\<lambda>c. Accept (chal_id c)) (take (Suc n) (challenge_queue s))"
    by (simp add: popped_def)
  then show ?case by blast
qed



subsection \<open>The capacity counters\<close>

lemma handle_event_counters:
  "handle_event cfg li s ev = Inr s1 \<Longrightarrow> expected s ev \<Longrightarrow> counters_ok cfg s \<Longrightarrow> counters_ok cfg s1"
  by (cases ev) (auto simp: counters_ok_def request_def Let_def split: if_splits option.splits exn.splits)

lemma start_step_counters:
  assumes "start_step cfg li s ev = Inr s'" "expected s ev" "counters_ok cfg s"
  shows "counters_ok cfg s'"
proof -
  from assms(1) obtain s1 where h: "handle_event cfg li s ev = Inr s1" and d: "drain cfg li s1 = Inr s'"
    by (auto simp: start_step_def split: sum.splits)
  from handle_event_counters[OF h assms(2,3)] have "counters_ok cfg s1" .
  with drain_counters[OF d] show ?thesis by (auto simp: counters_ok_def)
qed

lemma start_from_counters:
  "start_from cfg li s evs = Inr s' \<Longrightarrow> as_expected cfg li s evs \<Longrightarrow> counters_ok cfg s \<Longrightarrow>
   counters_ok cfg s'"
proof (induction evs arbitrary: s)
  case Nil
  then show ?case by simp
next
  case (Cons ev evs)
  from Cons.prems(1) obtain s1 where st: "start_step cfg li s ev = Inr s1"
    and rest: "start_from cfg li s1 evs = Inr s'"
    by (auto split: sum.splits)
  from Cons.prems(2) st have e: "expected s ev" and a: "as_expected cfg li s1 evs" by auto
  from start_step_counters[OF st e Cons.prems(3)] have "counters_ok cfg s1" .
  with Cons.IH[OF rest a] show ?case .
qed

lemma as_expected_take: "as_expected cfg li s evs \<Longrightarrow> as_expected cfg li s (take n evs)"
proof (induction evs arbitrary: s n)
  case Nil
  then show ?case by simp
next
  case (Cons ev evs)
  show ?case
  proof (cases n)
    case 0
    then show ?thesis by simp
  next
    case (Suc m)
    with Cons show ?thesis by (auto split: sum.splits)
  qed
qed

lemmas run_simps = start_def start_step_def init_controller_def request_def Let_def
  drain_stop drain_accept drain_skip drain_fatal room_def accepted_def popped_def


text \<open>
  Claim C1, as amended. From the initial state and with a maximum that is not negative,
  on every run in which each gameStart arrives while \<open>queued_processes\<close> is positive and
  each local_game_done arrives while \<open>busy_processes\<close> is positive, the counters satisfy
  \<open>0 \<le> queued_processes + busy_processes \<le> max_concurrent_games\<close> after each event
  that is handled without a fatal error.
\<close>

theorem capacity_invariant:
  assumes "0 \<le> max_concurrent_games cfg"
    and "as_expected cfg li init_controller evs"
    and "start cfg li (take n evs) = Inr s"
  shows "0 \<le> queued_processes s + busy_processes s \<and>
         queued_processes s + busy_processes s \<le> max_concurrent_games cfg"
proof -
  have i: "counters_ok cfg init_controller"
    using assms(1) by (simp add: counters_ok_def init_controller_def)
  from assms(3) have r: "start_from cfg li init_controller (take n evs) = Inr s"
    by (simp add: start_def)
  from start_from_counters[OF r as_expected_take[OF assms(2)] i] show ?thesis
    by (simp add: counters_ok_def)
qed


theorem capacity_invariant_witness:
  "0 \<le> max_concurrent_games one_game \<and>
   as_expected one_game always_ok init_controller
     [Challenge chal_a, GameStart ''g1'', LocalGameDone] \<and>
   start one_game always_ok (take 2 [Challenge chal_a, GameStart ''g1'', LocalGameDone]) =
     Inr \<lparr>busy_processes = 1, queued_processes = 0, challenge_queue = [], requests = 1,
          sent = [Accept ''A'', Launch ''g1'']\<rparr> \<and>
   (0::int) \<le> 0 + 1 \<and> (0::int) + 1 \<le> max_concurrent_games one_game"
proof -
  let ?evs = "[Challenge chal_a, GameStart ''g1'', LocalGameDone]"
  let ?s = "\<lparr>busy_processes = 1, queued_processes = 0, challenge_queue = [], requests = 1,
          sent = [Accept ''A'', Launch ''g1'']\<rparr>"
  have h1: "0 \<le> max_concurrent_games one_game" by (simp add: one_game_def)
  have h2: "as_expected one_game always_ok init_controller ?evs"
    by (simp add: run_simps one_game_def always_ok_def chal_a_def)
  have h3: "start one_game always_ok (take 2 ?evs) = Inr ?s"
    by (simp add: run_simps one_game_def always_ok_def chal_a_def)
  from capacity_invariant [OF h1 h2 h3] h1 h2 h3 show ?thesis by simp
qed

text \<open>
  Claim C1 as stated fails. With room for one game, a second gameStart arriving while
  nothing is queued still raises \<open>busy_processes\<close>, and the sum exceeds the maximum; a
  local_game_done arriving while nothing is busy makes the sum negative.
\<close>

theorem capacity_exceeded:
  "start one_game always_ok [GameStart ''g1'', GameStart ''g2''] =
     Inr \<lparr>busy_processes = 2, queued_processes = 0, challenge_queue = [], requests = 0,
          sent = [Launch ''g1'', Launch ''g2'']\<rparr> \<and>
   \<not> ((0::int) + 2 \<le> max_concurrent_games one_game) \<and>
   start one_game always_ok [LocalGameDone] =
     Inr \<lparr>busy_processes = - 1, queued_processes = 0, challenge_queue = [], requests = 0,
          sent = []\<rparr> \<and>
   \<not> ((0::int) \<le> 0 + (- 1))"
  by (simp add: run_simps one_game_def always_ok_def)

subsection \<open>The order of the pending queue\<close>

lemma by_score_sort: "by_score (sort_key (\<lambda>c. - chal_score c) q)"
proof -
  have "sorted (map (\<lambda>c. - chal_score c) (sort_key (\<lambda>c. - chal_score c) q))"
    by (rule sorted_sort_key)
  then show ?thesis by (simp add: by_score_def sorted_map)
qed

lemma by_score_drop: "by_score q \<Longrightarrow> by_score (drop n q)"
  by (simp add: by_score_def sorted_wrt_drop)

lemma same_score_sort:
  "filter (\<lambda>c. chal_score c = k) (sort_key (\<lambda>c. - chal_score c) q) = filter (\<lambda>c. chal_score c = k) q"
  using sort_key_stable [of "\<lambda>c. - chal_score c" "- k" q] by simp

text \<open>What one event does to the queue before the drain loop runs.\<close>

lemma handle_event_queue:
  assumes "handle_event cfg li s ev = Inr s1"
  shows "challenge_queue s1 =
           (if sort_challenges_by cfg \<noteq> Some ''first''
            then sort_key (\<lambda>c. - chal_score c) (challenge_queue s @ eligible [ev])
            else challenge_queue s @ eligible [ev]) \<or>
         eligible [ev] = [] \<and> challenge_queue s1 = challenge_queue s"
  using assms
  by (cases ev) (auto simp: request_def Let_def split: if_splits option.splits exn.splits)

lemma handle_event_accepts:
  assumes "handle_event cfg li s ev = Inr s1"
  shows "accepts (sent s1) = accepts (sent s)"
  using assms
  by (cases ev) (auto simp: accepts_def request_def Let_def split: if_splits option.splits exn.splits)

lemma eligible_Cons: "eligible (ev # evs) = eligible [ev] @ eligible evs"
  by (cases ev) auto

lemma start_step_by_score:
  assumes "start_step cfg li s ev = Inr s'" "sort_challenges_by cfg \<noteq> Some ''first''"
    "by_score (challenge_queue s)"
  shows "by_score (challenge_queue s')"
proof -
  from assms(1) obtain s1 where h: "handle_event cfg li s ev = Inr s1" and d: "drain cfg li s1 = Inr s'"
    by (auto simp: start_step_def split: sum.splits)
  from handle_event_queue[OF h] assms(2,3) have "by_score (challenge_queue s1)"
    by (auto simp: by_score_sort)
  with drain_pops[OF d] show ?thesis by (auto simp: by_score_drop)
qed

lemma start_from_by_score:
  "start_from cfg li s evs = Inr s' \<Longrightarrow> sort_challenges_by cfg \<noteq> Some ''first'' \<Longrightarrow>
   by_score (challenge_queue s) \<Longrightarrow> by_score (challenge_queue s')"
proof (induction evs arbitrary: s)
  case Nil
  then show ?case by simp
next
  case (Cons ev evs)
  from Cons.prems(1) obtain s1 where st: "start_step cfg li s ev = Inr s1"
    and rest: "start_from cfg li s1 evs = Inr s'"
    by (auto split: sum.splits)
  from start_step_by_score[OF st Cons.prems(2,3)] Cons.IH[OF rest Cons.prems(2)] show ?case
    by blast
qed

lemma start_step_same_score:
  assumes "start_step cfg li s ev = Inr s'"
  shows "\<exists>pre. filter (\<lambda>c. chal_score c = k) (challenge_queue s @ eligible [ev]) =
               pre @ filter (\<lambda>c. chal_score c = k) (challenge_queue s')"
proof -
  from assms(1) obtain s1 where h: "handle_event cfg li s ev = Inr s1" and d: "drain cfg li s1 = Inr s'"
    by (auto simp: start_step_def split: sum.splits)
  from handle_event_queue[OF h]
  have q1: "filter (\<lambda>c. chal_score c = k) (challenge_queue s1) =
            filter (\<lambda>c. chal_score c = k) (challenge_queue s @ eligible [ev])"
    by (auto simp: same_score_sort simp del: filter_append)
  from drain_pops[OF d] obtain n where n: "challenge_queue s' = drop n (challenge_queue s1)" by blast
  have "filter (\<lambda>c. chal_score c = k) (challenge_queue s1) =
        filter (\<lambda>c. chal_score c = k) (take n (challenge_queue s1)) @
        filter (\<lambda>c. chal_score c = k) (drop n (challenge_queue s1))"
    by (simp flip: filter_append)
  with q1 n show ?thesis by metis
qed

lemma start_from_same_score:
  "start_from cfg li s evs = Inr s' \<Longrightarrow>
   \<exists>pre. filter (\<lambda>c. chal_score c = k) (challenge_queue s @ eligible evs) =
         pre @ filter (\<lambda>c. chal_score c = k) (challenge_queue s')"
proof (induction evs arbitrary: s)
  case Nil
  then show ?case by simp
next
  case (Cons ev evs)
  from Cons.prems(1) obtain s1 where st: "start_step cfg li s ev = Inr s1"
    and rest: "start_from cfg li s1 evs = Inr s'"
    by (auto split: sum.splits)
  from start_step_same_score[OF st] obtain p1 where
    p1: "filter (\<lambda>c. chal_score c = k) (challenge_queue s @ eligible [ev]) =
         p1 @ filter (\<lambda>c. chal_score c = k) (challenge_queue s1)" by blast
  from Cons.IH[OF rest] obtain p2 where
    p2: "filter (\<lambda>c. chal_score c = k) (challenge_queue s1 @ eligible evs) =
         p2 @ filter (\<lambda>c. chal_score c = k) (challenge_queue s')" by blast
  have "filter (\<lambda>c. chal_score c = k) (challenge_queue s @ eligible (ev # evs)) =
        filter (\<lambda>c. chal_score c = k) (challenge_queue s @ eligible [ev]) @
        filter (\<lambda>c. chal_score c = k) (eligible evs)"
    by (subst eligible_Cons) simp
  also have "\<dots> = p1 @ filter (\<lambda>c. chal_score c = k) (challenge_queue s1 @ eligible evs)"
    using p1 by simp
  also have "\<dots> = (p1 @ p2) @ filter (\<lambda>c. chal_score c = k) (challenge_queue s')"
    using p2 by simp
  finally show ?case by blast
qed

lemma accepts_append: "accepts (xs @ ys) = accepts xs @ accepts ys"
  by (simp add: accepts_def)

lemma accepts_Accepts: "accepts (map (\<lambda>c. Accept (chal_id c)) q) = map chal_id q"
  by (induction q) (simp_all add: accepts_def)

lemma start_step_first:
  assumes "start_step cfg li s ev = Inr s'" "sort_challenges_by cfg = Some ''first''"
  shows "\<exists>pre. challenge_queue s @ eligible [ev] = pre @ challenge_queue s' \<and>
               accepts (sent s') = accepts (sent s) @ map chal_id pre"
proof -
  from assms(1) obtain s1 where h: "handle_event cfg li s ev = Inr s1" and d: "drain cfg li s1 = Inr s'"
    by (auto simp: start_step_def split: sum.splits)
  from handle_event_queue[OF h] assms(2)
  have q1: "challenge_queue s1 = challenge_queue s @ eligible [ev]" by auto
  from drain_pops[OF d] obtain n where n: "challenge_queue s' = drop n (challenge_queue s1)"
    "sent s' = sent s1 @ map (\<lambda>c. Accept (chal_id c)) (take n (challenge_queue s1))" by blast
  have "challenge_queue s1 = take n (challenge_queue s1) @ drop n (challenge_queue s1)"
    by simp
  with q1 n(1)
  have "challenge_queue s @ eligible [ev] = take n (challenge_queue s1) @ challenge_queue s'"
    by metis
  moreover have "accepts (sent s') = accepts (sent s) @ map chal_id (take n (challenge_queue s1))"
    using n(2) handle_event_accepts[OF h] by (simp add: accepts_append accepts_Accepts)
  ultimately show ?thesis by blast
qed

lemma start_from_first:
  "start_from cfg li s evs = Inr s' \<Longrightarrow> sort_challenges_by cfg = Some ''first'' \<Longrightarrow>
   \<exists>pre. challenge_queue s @ eligible evs = pre @ challenge_queue s' \<and>
         accepts (sent s') = accepts (sent s) @ map chal_id pre"
proof (induction evs arbitrary: s)
  case Nil
  then show ?case by simp
next
  case (Cons ev evs)
  from Cons.prems(1) obtain s1 where st: "start_step cfg li s ev = Inr s1"
    and rest: "start_from cfg li s1 evs = Inr s'"
    by (auto split: sum.splits)
  from start_step_first[OF st Cons.prems(2)] obtain p1 where
    p1: "challenge_queue s @ eligible [ev] = p1 @ challenge_queue s1"
        "accepts (sent s1) = accepts (sent s) @ map chal_id p1" by blast
  from Cons.IH[OF rest Cons.prems(2)] obtain p2 where
    p2: "challenge_queue s1 @ eligible evs = p2 @ challenge_queue s'"
        "accepts (sent s') = accepts (sent s1) @ map chal_id p2" by blast
  have "challenge_queue s @ eligible (ev # evs) = (challenge_queue s @ eligible [ev]) @ eligible evs"
    by (subst eligible_Cons) simp
  also have "\<dots> = (p1 @ p2) @ challenge_queue s'"
    using p1(1) p2(1) by simp
  finally have "challenge_queue s @ eligible (ev # evs) = (p1 @ p2) @ challenge_queue s'" .
  moreover have "accepts (sent s') = accepts (sent s) @ map chal_id (p1 @ p2)"
    using p1(2) p2(2) by simp
  ultimately show ?case by blast
qed


text \<open>
  Claim C5. After any run of the loop that has not raised: unless \<open>sort_challenges_by\<close>
  is \<open>"first"\<close> the pending queue is in descending order of score; the challenges of
  any one score that are still pending stand in their order of arrival (they are the
  last of that score to have arrived); in \<open>"first"\<close> mode the supported challenges, in
  order of arrival, are the ones already popped followed by the pending queue, and the
  accept requests were sent in that order, whatever the scores; and the drain loop only
  ever removes a prefix of the queue, sending the accept requests head first.
\<close>

theorem pending_queue_order:
  assumes "start cfg li evs = Inr s"
  shows "(sort_challenges_by cfg \<noteq> Some ''first'' \<longrightarrow> by_score (challenge_queue s)) \<and>
         (\<forall>k. \<exists>pre. filter (\<lambda>c. chal_score c = k) (eligible evs) =
                      pre @ filter (\<lambda>c. chal_score c = k) (challenge_queue s)) \<and>
         (sort_challenges_by cfg = Some ''first'' \<longrightarrow>
            (\<exists>pre. eligible evs = pre @ challenge_queue s \<and> accepts (sent s) = map chal_id pre)) \<and>
         (\<forall>s0 s1. drain cfg li s0 = Inr s1 \<longrightarrow>
            (\<exists>n. challenge_queue s1 = drop n (challenge_queue s0) \<and>
                 sent s1 = sent s0 @ map (\<lambda>c. Accept (chal_id c)) (take n (challenge_queue s0))))"
proof -
  from assms have r: "start_from cfg li init_controller evs = Inr s" by (simp add: start_def)
  have i: "by_score (challenge_queue init_controller)" "challenge_queue init_controller = []"
    "sent init_controller = []"
    by (simp_all add: by_score_def init_controller_def)
  have a: "sort_challenges_by cfg \<noteq> Some ''first'' \<longrightarrow> by_score (challenge_queue s)"
    using start_from_by_score[OF r _ i(1)] by blast
  have b: "\<exists>pre. filter (\<lambda>c. chal_score c = k) (eligible evs) =
                      pre @ filter (\<lambda>c. chal_score c = k) (challenge_queue s)" for k
    using start_from_same_score[OF r, of k] i(2) by simp
  have c: "sort_challenges_by cfg = Some ''first'' \<longrightarrow>
            (\<exists>pre. eligible evs = pre @ challenge_queue s \<and> accepts (sent s) = map chal_id pre)"
    using start_from_first[OF r] i(2,3) by (simp add: accepts_def)
  from a b c drain_pops show ?thesis by blast
qed


theorem pending_queue_order_witness:
  "start one_game always_ok [Challenge chal_a, Challenge chal_a, Challenge chal_b] =
     Inr \<lparr>busy_processes = 0, queued_processes = 1, challenge_queue = [chal_b, chal_a],
          requests = 1, sent = [Accept ''A'']\<rparr> \<and>
   sort_challenges_by one_game \<noteq> Some ''first'' \<and> by_score [chal_b, chal_a] \<and>
   start first_come always_ok [Challenge chal_a, Challenge chal_b] =
     Inr \<lparr>busy_processes = 0, queued_processes = 2, challenge_queue = [],
          requests = 2, sent = [Accept ''A'', Accept ''B'']\<rparr> \<and>
   sort_challenges_by first_come = Some ''first'' \<and>
   accepts [Accept ''A'', Accept ''B''] = map chal_id [chal_a, chal_b] \<and>
   drain first_come always_ok (init_controller\<lparr>challenge_queue := [chal_a, chal_b]\<rparr>) =
     Inr \<lparr>busy_processes = 0, queued_processes = 2, challenge_queue = [],
          requests = 2, sent = [Accept ''A'', Accept ''B'']\<rparr>"
proof -
  have h1: "start one_game always_ok [Challenge chal_a, Challenge chal_a, Challenge chal_b] =
     Inr \<lparr>busy_processes = 0, queued_processes = 1, challenge_queue = [chal_b, chal_a],
          requests = 1, sent = [Accept ''A'']\<rparr>"
    by (simp add: run_simps one_game_def always_ok_def chal_a_def chal_b_def)
  have h2: "start first_come always_ok [Challenge chal_a, Challenge chal_b] =
     Inr \<lparr>busy_processes = 0, queued_processes = 2, challenge_queue = [],
          requests = 2, sent = [Accept ''A'', Accept ''B'']\<rparr>"
    by (simp add: run_simps first_come_def always_ok_def chal_a_def chal_b_def)
  have h3: "drain first_come always_ok (init_controller\<lparr>challenge_queue := [chal_a, chal_b]\<rparr>) =
     Inr \<lparr>busy_processes = 0, queued_processes = 2, challenge_queue = [],
          requests = 2, sent = [Accept ''A'', Accept ''B'']\<rparr>"
    by (simp add: run_simps first_come_def always_ok_def chal_a_def chal_b_def)
  have m: "sort_challenges_by one_game \<noteq> Some ''first''"
    "sort_challenges_by first_come = Some ''first''"
    by (simp_all add: one_game_def first_come_def)
  from pending_queue_order [OF h1] m(1) have "by_score [chal_b, chal_a]" by simp
  moreover from pending_queue_order [OF h2] m(2)
  have "accepts [Accept ''A'', Accept ''B''] = map chal_id [chal_a, chal_b]"
    by (simp add: chal_a_def chal_b_def)
  ultimately show ?thesis using h1 h2 h3 m by simp
qed

subsection \<open>The length of the pending queue\<close>

lemma start_step_exit:
  "start_step cfg li s ev = Inr s' \<Longrightarrow> \<not> room cfg s'"
  by (auto simp: start_step_def split: sum.splits dest: drain_exit)

lemma start_from_exit:
  "start_from cfg li s0 (e # es) = Inr s \<Longrightarrow> \<not> room cfg s"
proof (induction es arbitrary: s0 e)
  case Nil
  then show ?case by (auto split: sum.splits dest: start_step_exit)
next
  case (Cons e' es)
  from Cons.prems obtain s1 where "start_from cfg li s1 (e' # es) = Inr s"
    by (auto split: sum.splits)
  with Cons.IH show ?case by blast
qed

text \<open>
  Claim C6, as amended. After each event (drain loop included) that is handled without a
  fatal error, the pending queue is empty whenever \<open>queued_processes + busy_processes\<close>
  is below \<open>max_concurrent_games\<close>: challenges stay pending only at full capacity, and
  then in any number.
\<close>

theorem pending_only_at_capacity:
  assumes "start cfg li evs = Inr s"
    and "queued_processes s + busy_processes s < max_concurrent_games cfg"
  shows "challenge_queue s = []"
proof (cases evs)
  case Nil
  with assms(1) show ?thesis by (auto simp: start_def init_controller_def)
next
  case (Cons e es)
  with assms(1) have "start_from cfg li init_controller (e # es) = Inr s"
    by (simp add: start_def)
  then have "\<not> room cfg s" by (rule start_from_exit)
  with assms(2) show ?thesis by (simp add: room_def)
qed

theorem pending_only_at_capacity_witness:
  "start one_game not_found [Challenge chal_a, Challenge chal_b] =
     Inr \<lparr>busy_processes = 0, queued_processes = 0, challenge_queue = [],
          requests = 2, sent = [Accept ''A'', Accept ''B'']\<rparr> \<and>
   (0::int) + 0 < max_concurrent_games one_game \<and>
   challenge_queue \<lparr>busy_processes = 0, queued_processes = 0, challenge_queue = [],
          requests = 2, sent = [Accept ''A'', Accept ''B'']\<rparr> = []"
proof -
  have h1: "start one_game not_found [Challenge chal_a, Challenge chal_b] =
     Inr \<lparr>busy_processes = 0, queued_processes = 0, challenge_queue = [],
          requests = 2, sent = [Accept ''A'', Accept ''B'']\<rparr>"
    by (simp add: run_simps one_game_def not_found_def chal_a_def chal_b_def)
  have h2: "queued_processes \<lparr>busy_processes = 0, queued_processes = 0, challenge_queue = [],
          requests = 2, sent = [Accept ''A'', Accept ''B'']\<rparr> +
        busy_processes \<lparr>busy_processes = 0, queued_processes = 0, challenge_queue = [],
          requests = 2, sent = [Accept ''A'', Accept ''B'']\<rparr> < max_concurrent_games one_game"
    by (simp add: one_game_def)
  from pending_only_at_capacity [OF h1 h2] h1 h2 show ?thesis by simp
qed

text \<open>
  Claim C6 as stated fails. With room for one game and nothing busy, the first challenge is
  accepted and two more stay pending: the queue holds two, one more than
  \<open>max_concurrent_games - busy_processes\<close>.
\<close>

theorem pending_exceeds_capacity:
  "start one_game always_ok [Challenge chal_a, Challenge chal_b, Challenge chal_a] =
     Inr \<lparr>busy_processes = 0, queued_processes = 1, challenge_queue = [chal_b, chal_a],
          requests = 1, sent = [Accept ''A'']\<rparr> \<and>
   \<not> (int (length [chal_b, chal_a]) \<le> max_concurrent_games one_game - 0)"
  by (simp add: run_simps one_game_def always_ok_def chal_a_def chal_b_def)

subsection \<open>Failed requests\<close>

text \<open>
  Claim C7. A decline request that fails with status 404 is swallowed and the loop goes on
  to the drain loop; with any other status the \<open>HTTPError\<close> leaves the loop. An accept
  request that fails with status 404 drops the popped challenge and the drain loop goes on
  with the rest of the queue; with any other status the \<open>HTTPError\<close> leaves the drain loop,
  and whatever leaves the drain loop leaves the control loop.
\<close>

theorem not_found_swallowed:
  "(\<not> chal_supported c \<and> li (requests s) = Some (HTTPError code) \<longrightarrow>
      (code = 404 \<longrightarrow>
         start_step cfg li s (Challenge c) =
           drain cfg li (s\<lparr>requests := Suc (requests s), sent := sent s @ [Decline (chal_id c)]\<rparr>)) \<and>
      (code \<noteq> 404 \<longrightarrow> start_from cfg li s (Challenge c # evs) = Inl (HTTPError code))) \<and>
   (queued_processes s + busy_processes s < max_concurrent_games cfg \<and>
    challenge_queue s = h # q \<and> li (requests s) = Some (HTTPError code) \<longrightarrow>
      (code = 404 \<longrightarrow>
         drain cfg li s =
           drain cfg li (s\<lparr>challenge_queue := q, requests := Suc (requests s),
                           sent := sent s @ [Accept (chal_id h)]\<rparr>)) \<and>
      (code \<noteq> 404 \<longrightarrow> drain cfg li s = Inl (HTTPError code))) \<and>
   (handle_event cfg li s ev = Inr s1 \<and> drain cfg li s1 = Inl e \<longrightarrow>
      start_from cfg li s (ev # evs) = Inl e)"
proof (intro conjI impI)
  assume "\<not> chal_supported c \<and> li (requests s) = Some (HTTPError code)" "code = 404"
  then show "start_step cfg li s (Challenge c) =
           drain cfg li (s\<lparr>requests := Suc (requests s), sent := sent s @ [Decline (chal_id c)]\<rparr>)"
    by (simp add: start_step_def request_def)
next
  assume "\<not> chal_supported c \<and> li (requests s) = Some (HTTPError code)" "code \<noteq> 404"
  then show "start_from cfg li s (Challenge c # evs) = Inl (HTTPError code)"
    by (simp add: start_step_def request_def)
next
  assume a: "queued_processes s + busy_processes s < max_concurrent_games cfg \<and>
    challenge_queue s = h # q \<and> li (requests s) = Some (HTTPError code)"
  then have r: "room cfg s" by (simp add: room_def)
  { assume "code = 404"
    with a r show "drain cfg li s =
           drain cfg li (s\<lparr>challenge_queue := q, requests := Suc (requests s),
                           sent := sent s @ [Accept (chal_id h)]\<rparr>)"
      by (simp add: drain_skip popped_def) }
  { assume "code \<noteq> 404"
    with a r show "drain cfg li s = Inl (HTTPError code)"
      by (simp add: drain_fatal) }
next
  assume "handle_event cfg li s ev = Inr s1 \<and> drain cfg li s1 = Inl e"
  then show "start_from cfg li s (ev # evs) = Inl e"
    by (simp add: start_step_def)
qed

theorem not_found_swallowed_witness:
  "start_step one_game not_found init_controller (Challenge chal_bad) =
     Inr (init_controller\<lparr>requests := 1, sent := [Decline ''X'']\<rparr>) \<and>
   start_from one_game server_error init_controller [Challenge chal_bad, Challenge chal_a] =
     Inl (HTTPError 500) \<and>
   drain one_game not_found (init_controller\<lparr>challenge_queue := [chal_a, chal_b]\<rparr>) =
     Inr (init_controller\<lparr>requests := 2, sent := [Accept ''A'', Accept ''B'']\<rparr>) \<and>
   drain one_game server_error (init_controller\<lparr>challenge_queue := [chal_a, chal_b]\<rparr>) =
     Inl (HTTPError 500) \<and>
   start_from one_game server_error init_controller [Challenge chal_a, Challenge chal_b] =
     Inl (HTTPError 500)"
proof -
  let ?q = "init_controller\<lparr>challenge_queue := [chal_a, chal_b]\<rparr>"
  have d: "\<not> chal_supported chal_bad \<and> not_found (requests init_controller) = Some (HTTPError 404)"
    "\<not> chal_supported chal_bad \<and> server_error (requests init_controller) = Some (HTTPError 500)"
    by (simp_all add: chal_bad_def not_found_def server_error_def)
  have a: "queued_processes ?q + busy_processes ?q < max_concurrent_games one_game \<and>
      challenge_queue ?q = chal_a # [chal_b] \<and> not_found (requests ?q) = Some (HTTPError 404)"
    "queued_processes ?q + busy_processes ?q < max_concurrent_games one_game \<and>
      challenge_queue ?q = chal_a # [chal_b] \<and> server_error (requests ?q) = Some (HTTPError 500)"
    by (simp_all add: init_controller_def one_game_def not_found_def server_error_def)
  have f: "handle_event one_game server_error init_controller (Challenge chal_a) = Inr (init_controller\<lparr>challenge_queue := [chal_a]\<rparr>) \<and>
      drain one_game server_error (init_controller\<lparr>challenge_queue := [chal_a]\<rparr>) = Inl (HTTPError 500)"
    by (simp add: run_simps one_game_def server_error_def chal_a_def)
  have "start_step one_game not_found init_controller (Challenge chal_bad) =
     Inr (init_controller\<lparr>requests := 1, sent := [Decline ''X'']\<rparr>)"
    using not_found_swallowed [where c = chal_bad and li = not_found and s = init_controller
        and code = 404 and cfg = one_game] d(1)
    by (simp add: run_simps one_game_def chal_bad_def)
  moreover have "start_from one_game server_error init_controller [Challenge chal_bad, Challenge chal_a] =
     Inl (HTTPError 500)"
    using not_found_swallowed [where c = chal_bad and li = server_error and s = init_controller
        and code = 500 and cfg = one_game and evs = "[Challenge chal_a]"] d(2)
    by simp
  moreover have "drain one_game not_found ?q =
     Inr (init_controller\<lparr>requests := 2, sent := [Accept ''A'', Accept ''B'']\<rparr>)"
    using not_found_swallowed [where li = not_found and s = ?q
        and code = 404 and cfg = one_game and h = chal_a and q = "[chal_b]"] a(1)
    by (simp add: run_simps one_game_def not_found_def chal_a_def chal_b_def)
  moreover have "drain one_game server_error ?q = Inl (HTTPError 500)"
    using not_found_swallowed [where li = server_error and s = ?q
        and code = 500 and cfg = one_game and h = chal_a and q = "[chal_b]"] a(2)
    by simp
  moreover have "start_from one_game server_error init_controller [Challenge chal_a, Challenge chal_b] =
     Inl (HTTPError 500)"
    using not_found_swallowed [where li = server_error and s = init_controller
        and cfg = one_game and ev = "Challenge chal_a" and evs = "[Challenge chal_b]"
        and e = "HTTPError 500" and ?s1.0 = "init_controller\<lparr>challenge_queue := [chal_a]\<rparr>"] f
    by simp
  ultimately show ?thesis by simp
qed

section \<open>Properties of the session driver\<close>

lemmas session_simps = emit_def li_call_def py_split_def is_space_def is_white_to_move_def
  is_engine_move_def update_board_def reader_move_def get_book_move_def play_first_move_def
  play_first_book_move_def choose_move_def on_game_state_def on_ping_def play_game_finally_def
  Let_def


subsection \<open>Whose turn it is\<close>

text \<open>
  Claim C9, as amended. \<open>is_engine_move\<close> is a function of three things only, all of them
  read from its arguments: the colour of the session (\<open>is_white\<close>), which side moves first
  in the initial position (\<open>white_starts\<close>) and the parity of the number of moves. Two
  evaluations that agree on the three give the same result, whatever else differs.
\<close>

theorem turn_by_colour_start_parity:
  "is_engine_move game moves = (is_white game = (even (length moves) = white_starts game)) \<and>
   (is_white g = is_white g' \<and> white_starts g = white_starts g' \<and>
    even (length ms) = even (length ms') \<longrightarrow> is_engine_move g ms = is_engine_move g' ms')"
  by (auto simp: is_engine_move_def is_white_to_move_def Let_def even_iff_mod_2_eq_zero)

theorem turn_by_colour_start_parity_witness:
  "is_white demo_game = is_white (demo_game\<lparr>game_id := ''other''\<rparr>) \<and>
   white_starts demo_game = white_starts (demo_game\<lparr>game_id := ''other''\<rparr>) \<and>
   even (length [''e2e4'', ''e7e5'']) = even (length ([] :: string list)) \<and>
   is_engine_move demo_game [''e2e4'', ''e7e5''] =
     is_engine_move (demo_game\<lparr>game_id := ''other''\<rparr>) []"
  using turn_by_colour_start_parity [of demo_game "[]" demo_game "demo_game\<lparr>game_id := ''other''\<rparr>"
      "[''e2e4'', ''e7e5'']" "[]"]
  by (simp add: demo_game_def)


text \<open>
  Claim C9 as stated fails: colour and parity do not determine the result. Two sessions
  play white and no move has been played; in the one that starts from a position where
  black moves first it is not the engine's turn.
\<close>

theorem turn_depends_on_who_starts:
  "is_white demo_game = is_white black_from_position \<and>
   even (length ([] :: string list)) = even (length ([] :: string list)) \<and>
   is_engine_move demo_game [] \<noteq> is_engine_move black_from_position []"
  by (simp add: is_engine_move_def is_white_to_move_def demo_game_def black_from_position_def)


subsection \<open>The idle abort\<close>

lemma uci_text_length:
  assumes "list_all (\<lambda>m. length m = 4 \<or> length m = 5) ms"
  shows "(length (uci_text ms) < 6) = (length ms < 2)"
proof (cases ms)
  case Nil
  then show ?thesis by (simp add: uci_text_def)
next
  case (Cons m rest)
  show ?thesis
  proof (cases rest)
    case Nil
    with Cons assms show ?thesis by (auto simp: uci_text_def)
  next
    case (Cons m' rest')
    with \<open>ms = m # rest\<close> assms show ?thesis by (auto simp: uci_text_def)
  qed
qed


text \<open>
  Claim C3, as amended. On a ping the session sends an abort request if and only if
  \<open>game.should_abort_now()\<close> holds and the text \<open>game.state["moves"]\<close> is shorter than 6
  characters; otherwise the ping does nothing. For UCI moves of 4 or 5 characters with one
  space between them, the text is shorter than 6 characters exactly when fewer than 2 moves
  have been played.
\<close>

theorem idle_abort:
  "(effects (snd (on_update w ecfg s Ping)) = effects s @ [Abort (game_id (sgame s))]) =
     (should_abort_now w (ticks s) \<and> length (state_moves (sgame s)) < 6) \<and>
   (\<not> (should_abort_now w (ticks s) \<and> length (state_moves (sgame s)) < 6) \<longrightarrow>
      effects (snd (on_update w ecfg s Ping)) = effects s) \<and>
   (list_all (\<lambda>m. length m = 4 \<or> length m = 5) ms \<and> state_moves (sgame s) = uci_text ms \<longrightarrow>
      (length (state_moves (sgame s)) < 6) = (length ms < 2))"
  by (auto simp: on_ping_def li_call_def emit_def uci_text_length)

theorem idle_abort_witness:
  "list_all (\<lambda>m. length m = 4 \<or> length m = 5) [''e2e4'', ''e7e5''] \<and>
   state_moves (sgame two_plies) = uci_text [''e2e4'', ''e7e5''] \<and>
   \<not> (should_abort_now demo_world (ticks two_plies) \<and> length (state_moves (sgame two_plies)) < 6) \<and>
   effects (snd (on_update demo_world engine_only two_plies Ping)) = effects two_plies \<and>
   \<not> length [''e2e4'', ''e7e5''] < 2"
  using idle_abort [of demo_world engine_only two_plies "[''e2e4'', ''e7e5'']"]
  by (simp add: two_plies_def demo_session_def demo_game_def uci_text_def)


text \<open>
  Claim C3 as stated fails, reading the 6 of the source as the minimum number of moves:
  the deadline has passed and two moves have been played, fewer than six, and the ping
  sends no abort request and changes nothing. The text of the two moves is 9 characters
  long, so the same holds whatever \<open>game.should_abort_now()\<close> answers.
\<close>

theorem idle_abort_not_below_six_moves:
  "should_abort_now demo_world (ticks two_plies) \<and>
   state_moves (sgame two_plies) = ''e2e4 e7e5'' \<and>
   length (py_split ''e2e4 e7e5'') < 6 \<and>
   on_update demo_world engine_only two_plies Ping = (Inr (), two_plies) \<and>
   on_update patient engine_only two_plies Ping = (Inr (), two_plies)"
  by (simp add: session_simps two_plies_def demo_session_def demo_game_def demo_world_def
      patient_def)


subsection \<open>The lookup source and the engine\<close>

lemma is_engine_move_state:
  "is_engine_move (g\<lparr>state_moves := x\<rparr>) ms = is_engine_move g ms"
  by (simp add: is_engine_move_def is_white_to_move_def)


text \<open>
  Claim C4. Handling a \<open>gameState\<close> message consults the lookup source only if it is
  enabled and the number of moves is at most \<open>2 * polyglot_max_depth - 1\<close>. Beyond that
  number, when the move is the engine's to make, the engine is asked and the lookup source
  is not, whatever the lookup source would have returned.
\<close>

theorem lookup_within_depth:
  assumes "effects (snd (on_update w ecfg s (GameState upd))) = effects s @ new"
  shows "(BookLookup \<in> set new \<longrightarrow>
            polyglot ecfg \<and> int (length (py_split (gs_moves upd))) \<le> 2 * polyglot_max_depth ecfg - 1) \<and>
         (\<not> int (length (py_split (gs_moves upd))) \<le> 2 * polyglot_max_depth ecfg - 1 \<and>
          py_split (gs_moves upd) \<noteq> [] \<and>
          move_from_uci w (last (py_split (gs_moves upd))) = Inr m \<and>
          is_engine_move (sgame s) (py_split (gs_moves upd)) \<longrightarrow>
            Search (wtime upd) (btime upd) (winc upd) (binc upd) \<in> set new \<and> BookLookup \<notin> set new)"
  using assms
  by (auto simp: on_game_state_def is_engine_move_state Let_def update_board_def choose_move_def get_book_move_def
      li_call_def emit_def split: sum.splits prod.splits option.splits if_splits)


theorem lookup_within_depth_witness:
  "on_update demo_world shallow_book as_black (GameState after_e4) =
     (Inr (), as_black\<lparr>sgame := (sgame as_black)\<lparr>state_moves := ''e2e4''\<rparr>,
                       sboard := (sboard as_black)\<lparr>move_stack := [''e2e4'']\<rparr>,
                       effects := [BookLookup, MakeMove ''abcd1234'' ''d2d4'', AbortIn 20],
                       li_requests := 1\<rparr>) \<and>
   polyglot shallow_book \<and>
   int (length (py_split (gs_moves after_e4))) \<le> 2 * polyglot_max_depth shallow_book - 1 \<and>
   on_update demo_world shallow_book demo_session (GameState after_e4_e5) =
     (Inr (), demo_session\<lparr>sgame := (sgame demo_session)\<lparr>state_moves := ''e2e4 e7e5''\<rparr>,
                       sboard := (sboard demo_session)\<lparr>move_stack := [''e7e5'']\<rparr>,
                       effects := [Search 60000 59000 0 0, MakeMove ''abcd1234'' ''g1f3'', AbortIn 20],
                       li_requests := 1\<rparr>) \<and>
   \<not> int (length (py_split (gs_moves after_e4_e5))) \<le> 2 * polyglot_max_depth shallow_book - 1 \<and>
   reader_move demo_world (sboard demo_session) shallow_book = Inr ''d2d4''"
proof -
  have a: "on_update demo_world shallow_book as_black (GameState after_e4) =
     (Inr (), as_black\<lparr>sgame := (sgame as_black)\<lparr>state_moves := ''e2e4''\<rparr>,
                       sboard := (sboard as_black)\<lparr>move_stack := [''e2e4'']\<rparr>,
                       effects := [BookLookup, MakeMove ''abcd1234'' ''d2d4'', AbortIn 20],
                       li_requests := 1\<rparr>)"
    by (simp add: session_simps shallow_book_def with_book_def engine_only_def as_black_def
        demo_session_def demo_game_def demo_world_def after_e4_def)
  have b: "on_update demo_world shallow_book demo_session (GameState after_e4_e5) =
     (Inr (), demo_session\<lparr>sgame := (sgame demo_session)\<lparr>state_moves := ''e2e4 e7e5''\<rparr>,
                       sboard := (sboard demo_session)\<lparr>move_stack := [''e7e5'']\<rparr>,
                       effects := [Search 60000 59000 0 0, MakeMove ''abcd1234'' ''g1f3'', AbortIn 20],
                       li_requests := 1\<rparr>)"
    by (simp add: session_simps shallow_book_def with_book_def engine_only_def
        demo_session_def demo_game_def demo_world_def after_e4_e5_def)
  have a': "effects (snd (on_update demo_world shallow_book as_black (GameState after_e4))) =
      effects as_black @ [BookLookup, MakeMove ''abcd1234'' ''d2d4'', AbortIn 20]"
    using a by (simp add: as_black_def demo_session_def)
  have b': "effects (snd (on_update demo_world shallow_book demo_session (GameState after_e4_e5))) =
      effects demo_session @ [Search 60000 59000 0 0, MakeMove ''abcd1234'' ''g1f3'', AbortIn 20]"
    using b by (simp add: demo_session_def)
  have c: "reader_move demo_world (sboard demo_session) shallow_book = Inr ''d2d4''"
    by (simp add: reader_move_def demo_world_def shallow_book_def with_book_def engine_only_def)
  from lookup_within_depth [OF a'] lookup_within_depth [OF b', of "''e7e5''"] a b c
  show ?thesis
    by (simp add: shallow_book_def with_book_def engine_only_def after_e4_e5_def py_split_def is_space_def)
qed


text \<open>
  Claim C8. \<open>get_book_move\<close> always returns; when opening or querying the lookup source
  raises, it returns \<open>None\<close>. Then, in the loop, \<open>engine.search\<close> is called with the four
  clock figures and, for the first move, \<open>play_first_book_move\<close> goes on as
  \<open>play_first_move\<close>, which calls \<open>engine.first_search\<close> with 2000.
\<close>

theorem book_failure_falls_back:
  "(\<exists>r. fst (get_book_move w board ecfg s) = Inr r) \<and>
   (reader_move w board ecfg = Inl e \<longrightarrow> fst (get_book_move w board ecfg s) = Inr None) \<and>
   (reader_move w (sboard s) ecfg = Inl e \<and>
    polyglot ecfg \<and> int (length moves) \<le> polyglot_max_depth ecfg * 2 - 1 \<longrightarrow>
      choose_move w ecfg upd moves s =
        (engine_search w (sboard s) (wtime upd) (btime upd) (winc upd) (binc upd),
         emit (Search (wtime upd) (btime upd) (winc upd) (binc upd)) (emit BookLookup s))) \<and>
   (reader_move w (sboard s) ecfg = Inl e \<and>
    is_engine_move (sgame s) (py_split (state_moves (sgame s))) \<longrightarrow>
      play_first_book_move w ecfg s = play_first_move w (emit BookLookup s) \<and>
      play_first_move w (emit BookLookup s) =
        (case engine_first_search w (sboard s) 2000 of
           Inl x \<Rightarrow> (Inl x, emit (FirstSearch 2000) (emit BookLookup s))
         | Inr best_move \<Rightarrow>
             li_call w (MakeMove (game_id (sgame s)) best_move)
               (emit (FirstSearch 2000) (emit BookLookup s))))"
  by (auto simp: get_book_move_def choose_move_def play_first_book_move_def play_first_move_def
      emit_def Let_def split: sum.splits)

theorem book_failure_falls_back_witness:
  "reader_move no_book (sboard demo_session) with_book = Inl ValueError \<and>
   fst (get_book_move no_book (sboard demo_session) with_book demo_session) = Inr None \<and>
   polyglot with_book \<and>
   int (length [''e2e4'', ''e7e5'']) \<le> polyglot_max_depth with_book * 2 - 1 \<and>
   choose_move no_book with_book after_e4_e5 [''e2e4'', ''e7e5''] demo_session =
     (Inr ''g1f3'', demo_session\<lparr>effects := [BookLookup, Search 60000 59000 0 0]\<rparr>) \<and>
   is_engine_move (sgame demo_session) (py_split (state_moves (sgame demo_session))) \<and>
   play_first_book_move no_book with_book demo_session =
     (Inr (), demo_session\<lparr>effects := [BookLookup, FirstSearch 2000, MakeMove ''abcd1234'' ''e2e4''],
                           li_requests := 1\<rparr>)"
proof -
  have f: "reader_move no_book (sboard demo_session) with_book = Inl ValueError"
    by (simp add: reader_move_def no_book_def)
  have d: "polyglot with_book \<and> int (length [''e2e4'', ''e7e5'']) \<le> polyglot_max_depth with_book * 2 - 1"
    by (simp add: with_book_def engine_only_def)
  have t: "is_engine_move (sgame demo_session) (py_split (state_moves (sgame demo_session)))"
    by (simp add: session_simps demo_session_def demo_game_def)
  from book_failure_falls_back [of no_book "sboard demo_session" with_book demo_session ValueError
      "[''e2e4'', ''e7e5'']" after_e4_e5] f d t
  show ?thesis
    by (simp add: emit_def li_call_def no_book_def demo_world_def demo_session_def demo_game_def
        after_e4_e5_def)
qed

subsection \<open>The stored board\<close>

lemma choose_move_board: "sboard (snd (choose_move w ecfg upd moves s)) = sboard s"
  by (simp add: choose_move_def get_book_move_def emit_def split: sum.splits)

lemma on_game_state_board:
  assumes "py_split (gs_moves upd) \<noteq> []"
    and "move_from_uci w (last (py_split (gs_moves upd))) = Inr m"
  shows "sboard (snd (on_game_state w ecfg s upd)) = (sboard s)\<lparr>move_stack := move_stack (sboard s) @ [m]\<rparr>"
proof -
  let ?moves = "py_split (gs_moves upd)"
  let ?s2 = "s\<lparr>sgame := (sgame s)\<lparr>state_moves := gs_moves upd\<rparr>,
               sboard := (sboard s)\<lparr>move_stack := move_stack (sboard s) @ [m]\<rparr>\<rparr>"
  show ?thesis
  proof (cases "is_engine_move (sgame s) ?moves")
    case False
    with assms show ?thesis by (simp add: on_game_state_def is_engine_move_state update_board_def Let_def)
  next
    case True
    obtain r s3 where c: "choose_move w ecfg upd ?moves ?s2 = (r, s3)" by (cases "choose_move w ecfg upd ?moves ?s2")
    then have b3: "sboard s3 = sboard ?s2" using choose_move_board [of w ecfg upd ?moves ?s2] by simp
    with assms True c show ?thesis
      by (cases r) (simp_all add: on_game_state_def is_engine_move_state update_board_def Let_def li_call_def emit_def
          split: option.splits)
  qed
qed


text \<open>
  Claim C10. A \<open>gameState\<close> message whose move list is not empty and whose last move
  parses pushes that one move onto the stored board, and nothing else. So if the board held
  exactly the moves of a list \<open>h\<close>: after a message with \<open>h\<close> and one more move it holds
  exactly the moves of the message; after a message that repeats \<open>h\<close> it holds the last
  move twice, and after a message with two more moves it misses the first of them, and in
  both cases it no longer holds the moves of the message.
\<close>

theorem only_last_move_replayed:
  assumes "py_split (gs_moves upd) = moves" and "moves \<noteq> []"
    and "move_from_uci w (last moves) = Inr m"
    and "on_update w ecfg s (GameState upd) = (r, s')"
  shows "move_stack (sboard s') = move_stack (sboard s) @ [m] \<and>
         (\<forall>h. replays w (sboard s) h \<longrightarrow>
            (\<forall>x. moves = h @ [x] \<longrightarrow> replays w (sboard s') moves) \<and>
            (moves = h \<longrightarrow> move_stack (sboard s') = move_stack (sboard s) @ [last (move_stack (sboard s))] \<and>
                            \<not> replays w (sboard s') moves) \<and>
            (\<forall>x y. moves = h @ [x, y] \<longrightarrow> \<not> replays w (sboard s') moves))"
proof -
  from assms have st: "move_stack (sboard s') = move_stack (sboard s) @ [m]"
    using on_game_state_board [of upd w m ecfg s] by simp
  have "replays w (sboard s') moves" if "replays w (sboard s) h" "moves = h @ [x]" for h x
    using that st assms(3) by (simp add: replays_def)
  moreover have "move_stack (sboard s') = move_stack (sboard s) @ [last (move_stack (sboard s))] \<and>
                 \<not> replays w (sboard s') moves" if h: "replays w (sboard s) h" "moves = h" for h
  proof
    from h have eq: "map (move_from_uci w) moves = map Inr (move_stack (sboard s))"
      by (simp add: replays_def)
    then have len: "length moves = length (move_stack (sboard s))"
      by (metis length_map)
    with assms(2) have ne: "move_stack (sboard s) \<noteq> []" by auto
    from eq assms(2) ne have "move_from_uci w (last moves) = Inr (last (move_stack (sboard s)))"
      by (metis last_map map_is_Nil_conv)
    with assms(3) have "m = last (move_stack (sboard s))" by simp
    with st show "move_stack (sboard s') = move_stack (sboard s) @ [last (move_stack (sboard s))]"
      by simp
    show "\<not> replays w (sboard s') moves"
    proof
      assume "replays w (sboard s') moves"
      then have "length moves = length (move_stack (sboard s'))"
        unfolding replays_def by (metis length_map)
      with st len show False by simp
    qed
  qed
  moreover have "\<not> replays w (sboard s') moves" if h: "replays w (sboard s) h" "moves = h @ [x, y]" for h x y
  proof
    assume "replays w (sboard s') moves"
    then have "length moves = length (move_stack (sboard s'))"
      unfolding replays_def by (metis length_map)
    moreover from h(1) have "length h = length (move_stack (sboard s))"
      unfolding replays_def by (metis length_map)
    ultimately show False using st h(2) by simp
  qed
  ultimately show ?thesis using st by blast
qed


theorem only_last_move_replayed_witness:
  "py_split (gs_moves after_e4) = [''e2e4''] \<and>
   move_from_uci demo_world ''e2e4'' = Inr ''e2e4'' \<and>
   replays demo_world (sboard as_black) [] \<and>
   move_stack (sboard (snd (on_update demo_world engine_only as_black (GameState after_e4)))) =
     [''e2e4''] \<and>
   replays demo_world (sboard after_e4_again) [''e2e4''] \<and>
   move_stack (sboard (snd (on_update demo_world engine_only after_e4_again (GameState after_e4)))) =
     [''e2e4'', ''e2e4''] \<and>
   py_split (gs_moves after_e4_e5) = [''e2e4'', ''e7e5''] \<and>
   move_from_uci demo_world ''e7e5'' = Inr ''e7e5'' \<and>
   move_stack (sboard (snd (on_update demo_world engine_only as_black (GameState after_e4_e5)))) =
     [''e7e5'']"
proof -
  have sp: "py_split (gs_moves after_e4) = [''e2e4'']"
    "py_split (gs_moves after_e4_e5) = [''e2e4'', ''e7e5'']"
    by (simp_all add: py_split_def is_space_def after_e4_def after_e4_e5_def)
  have ne: "[''e2e4''] \<noteq> ([] :: string list)" "[''e2e4'', ''e7e5''] \<noteq> ([] :: string list)"
    by simp_all
  have uci: "move_from_uci demo_world (last [''e2e4'']) = Inr ''e2e4''"
    "move_from_uci demo_world (last [''e2e4'', ''e7e5'']) = Inr ''e7e5''"
    by (simp_all add: demo_world_def)
  have rp: "replays demo_world (sboard as_black) []"
    "replays demo_world (sboard after_e4_again) [''e2e4'']"
    by (simp_all add: replays_def as_black_def after_e4_again_def demo_session_def demo_world_def)
  have pr: "on_update demo_world engine_only s (GameState u) =
      (fst (on_update demo_world engine_only s (GameState u)),
       snd (on_update demo_world engine_only s (GameState u)))" for s u
    by simp
  from only_last_move_replayed [OF sp(1) ne(1) uci(1) pr [of as_black after_e4]]
  have a: "move_stack (sboard (snd (on_update demo_world engine_only as_black (GameState after_e4)))) =
     [''e2e4'']"
    by (simp add: as_black_def demo_session_def)
  from only_last_move_replayed [OF sp(1) ne(1) uci(1) pr [of after_e4_again after_e4]] rp(2)
  have b: "move_stack (sboard (snd (on_update demo_world engine_only after_e4_again (GameState after_e4)))) =
     [''e2e4'', ''e2e4'']"
    by (simp add: after_e4_again_def as_black_def demo_session_def)
  from only_last_move_replayed [OF sp(2) ne(2) uci(2) pr [of as_black after_e4_e5]]
  have c: "move_stack (sboard (snd (on_update demo_world engine_only as_black (GameState after_e4_e5)))) =
     [''e7e5'']"
    by (simp add: as_black_def demo_session_def)
  from sp uci rp a b c show ?thesis by simp
qed


subsection \<open>The end of a session\<close>

text \<open>
  Claim C2 fails on the code. The session plays white and no move has been played, so the
  first move is the engine's; the request that submits it fails with an \<open>HTTPError\<close>. The
  exception leaves \<open>play_game\<close> before the \<open>try\<close> statement: the engine is not shut down
  and no local_game_done is put on the control queue. When the same request fails inside
  the loop (the session plays black and answers the first move), the exception is caught,
  the engine is shut down and the event is put on the queue.
\<close>

theorem first_move_failure_skips_cleanup:
  "play_game refusing engine_only [Chunk (GameFull demo_game), Chunk Ping] =
     (Some (HTTPError 400),
      [EngineCreated, PreGame, FirstSearch 2000, MakeMove ''abcd1234'' ''e2e4'']) \<and>
   play_game refusing engine_only
     [Chunk (GameFull (demo_game\<lparr>is_white := False\<rparr>)), Chunk (GameState after_e4)] =
     (None,
      [EngineCreated, PreGame, Search 60000 60000 0 0, MakeMove ''abcd1234'' ''g1f3'',
       EngineQuit, PutLocalGameDone])"
  by (simp add: play_game_def setup_board_def lower_def session_simps refusing_def demo_world_def
      demo_game_def engine_only_def after_e4_def)


text \<open>
  What does hold: no message of the stream makes the session shut the engine down or put
  the event on the queue, and once the loop is left, by any exit, with an engine whose
  \<open>quit\<close> returns, both are done, once each, in that order.
\<close>

lemma on_update_effects:
  "\<exists>new. effects (snd (on_update w ecfg s u)) = effects s @ new \<and>
         EngineQuit \<notin> set new \<and> PutLocalGameDone \<notin> set new"
proof (cases u)
  case (GameState upd)
  then show ?thesis
    by (auto simp: on_game_state_def is_engine_move_state Let_def update_board_def choose_move_def get_book_move_def
        li_call_def emit_def split: sum.splits prod.splits option.splits if_splits)
qed (auto simp: on_ping_def li_call_def emit_def)

lemma play_game_loop_effects:
  "\<exists>new. effects (snd (play_game_loop w ecfg s updates)) = effects s @ new \<and>
         EngineQuit \<notin> set new \<and> PutLocalGameDone \<notin> set new"
proof (induction updates arbitrary: s)
  case Nil
  then show ?case by simp
next
  case (Cons c updates)
  show ?case
  proof (cases c)
    case (Broken e)
    then show ?thesis by simp
  next
    case (Chunk u)
    obtain r s1 where u: "on_update w ecfg s u = (r, s1)" by (cases "on_update w ecfg s u")
    from on_update_effects [of w ecfg s u] u obtain n1 where
      n1: "effects s1 = effects s @ n1" "EngineQuit \<notin> set n1" "PutLocalGameDone \<notin> set n1"
      by auto
    show ?thesis
    proof (cases r)
      case (Inl e)
      with Chunk u n1 show ?thesis by simp
    next
      case (Inr x)
      from Cons.IH [of "s1\<lparr>ticks := Suc (ticks s1)\<rparr>"] obtain n2 where
        n2: "effects (snd (play_game_loop w ecfg (s1\<lparr>ticks := Suc (ticks s1)\<rparr>) updates)) =
             effects s1 @ n2" "EngineQuit \<notin> set n2" "PutLocalGameDone \<notin> set n2"
        by auto
      with Chunk u Inr n1 have
        "effects (snd (play_game_loop w ecfg s (c # updates))) = effects s @ (n1 @ n2) \<and>
         EngineQuit \<notin> set (n1 @ n2) \<and> PutLocalGameDone \<notin> set (n1 @ n2)"
        by simp
      then show ?thesis by blast
    qed
  qed
qed

lemma cleanup_after_the_loop:
  assumes "engine_quit w = None"
    and "EngineQuit \<notin> set (effects s)" and "PutLocalGameDone \<notin> set (effects s)"
    and "play_game_loop w ecfg s updates = (r, s3)"
  shows "\<exists>acts. snd (play_game_finally w pending s3) = acts @ [EngineQuit, PutLocalGameDone] \<and>
               EngineQuit \<notin> set acts \<and> PutLocalGameDone \<notin> set acts"
proof -
  from play_game_loop_effects [of w ecfg s updates] assms(4) obtain new where
    "effects s3 = effects s @ new" "EngineQuit \<notin> set new" "PutLocalGameDone \<notin> set new"
    by auto
  with assms(1-3) show ?thesis
    by (simp add: play_game_finally_def emit_def Let_def)
qed


end
